theory Spec2Isabelle
  imports Complex_Main
begin

section \<open>Values\<close>

text \<open>
  The program computes on numpy arrays of 64-bit floats.  The embedding takes a finite
  float to be the real number it stands for and computes on it exactly (rounding is not
  part of the model), and it keeps the special values of IEEE 754 that the program can
  produce as values of their own:

  \<^item> before the logarithm, a float is a \<open>real option\<close>, and a complex float a
    \<open>complex option\<close>, where \<open>None\<close> is nan (for a complex number: nan in both parts);
  \<^item> the decibel values that \<open>mimo_array_response\<close> returns are of type \<open>fl\<close>: finite,
    minus infinity (the logarithm of zero) or nan.

  A division by zero, an invalid operation and the logarithm of zero only make numpy print
  a \<open>RuntimeWarning\<close>; they raise nothing.  What numpy raises is a \<open>ValueError\<close>.
\<close>

datatype error = ValueError

datatype fl = Fin real | NegInf | NaN

fun fl_le :: "fl \<Rightarrow> fl \<Rightarrow> bool" where
  \<comment> \<open>\<open>x <= y\<close> on floats: false when either is nan\<close>
  "fl_le (Fin x) (Fin y) = (x \<le> y)"
| "fl_le NegInf (Fin y) = True"
| "fl_le NegInf NegInf = True"
| "fl_le (Fin x) NegInf = False"
| "fl_le NaN y = False"
| "fl_le x NaN = False"

fun fl_eq :: "fl \<Rightarrow> fl \<Rightarrow> bool" where
  \<comment> \<open>\<open>x == y\<close> on floats: false when either is nan\<close>
  "fl_eq (Fin x) (Fin y) = (x = y)"
| "fl_eq NegInf NegInf = True"
| "fl_eq x y = False"

definition lift2 :: "('a \<Rightarrow> 'b \<Rightarrow> 'c) \<Rightarrow> 'a option \<Rightarrow> 'b option \<Rightarrow> 'c option" where
  \<comment> \<open>a binary operation of floats: nan in, nan out\<close>
  "lift2 f x y =
     (case x of None \<Rightarrow> None
      | Some a \<Rightarrow> (case y of None \<Rightarrow> None | Some b \<Rightarrow> Some (f a b)))"

definition fdiv :: "real option \<Rightarrow> real option \<Rightarrow> real option" where
  \<comment> \<open>\<open>x / y\<close> on floats.  \<open>0.0 / 0.0\<close> is nan.  The program divides a window by its norm
      and a gain by the largest gain only; such a divisor is zero only when the dividend
      is zero too (\<open>l2norm_zero\<close> and \<open>max_gain_zero\<close> below), so the infinite quotient
      of a non-zero by zero does not occur and has no value of its own here.\<close>
  "fdiv x y =
     (case x of None \<Rightarrow> None
      | Some a \<Rightarrow> (case y of None \<Rightarrow> None
                  | Some b \<Rightarrow> if b = 0 then None else Some (a / b)))"

section \<open>The numpy functions the program calls\<close>

text \<open>
  These are numpy's, not the repository's; they follow numpy's documentation.
  \<open>np.ones\<close> raises \<open>ValueError\<close> on a negative length.  The window functions return
  the empty array for \<open>M < 1\<close> and \<open>[1.]\<close> for \<open>M = 1\<close>, and otherwise the \<open>M\<close> samples
  \<open>n = 0, ..., M - 1\<close> of their raised-cosine formula over \<open>M - 1\<close>.  Rounding is left
  out but where it decides between a window of norm zero and any other: the Blackman
  window of length 2.
\<close>

definition np_ones :: "int \<Rightarrow> error + real list" where
  "np_ones N = (if N < 0 then Inl ValueError else Inr (replicate (nat N) 1))"

definition np_arange :: "int \<Rightarrow> nat list" where
  "np_arange N = [0..<nat N]"

definition np_hamming :: "int \<Rightarrow> real list" where
  "np_hamming M =
     (if M < 1 then [] else if M = 1 then [1]
      else map (\<lambda>n. 0.54 - 0.46 * cos (2 * pi * real n / real_of_int (M - 1))) [0..<nat M])"

definition np_hanning :: "int \<Rightarrow> real list" where
  "np_hanning M =
     (if M < 1 then [] else if M = 1 then [1]
      else map (\<lambda>n. 0.5 - 0.5 * cos (2 * pi * real n / real_of_int (M - 1))) [0..<nat M])"

definition np_blackman :: "int \<Rightarrow> real list" where
  \<comment> \<open>For \<open>M = 2\<close> both samples are \<open>0.42 - 0.5 + 0.08\<close>, which is \<open>0\<close> in exact
      arithmetic and \<open>-2^-56\<close> (\<open>-1.3877787807814457e-17\<close>) in float64, both subtractions
      being exact there.  The program divides by the norm of this window, so whether it
      is zero matters: the model takes numpy's value.\<close>
  "np_blackman M =
     (if M < 1 then [] else if M = 1 then [1]
      else if M = 2 then [- (1 / 2 ^ 56), - (1 / 2 ^ 56)]
      else map (\<lambda>n. 0.42 - 0.5 * cos (2 * pi * real n / real_of_int (M - 1))
                        + 0.08 * cos (4 * pi * real n / real_of_int (M - 1))) [0..<nat M])"

definition l2norm :: "real list \<Rightarrow> real" where
  \<comment> \<open>\<open>np.linalg.norm\<close> of a vector\<close>
  "l2norm w = sqrt (sum_list (map (\<lambda>x. x\<^sup>2) w))"

definition radians :: "real \<Rightarrow> real" where
  "radians x = x * pi / 180"

definition degrees :: "real \<Rightarrow> real" where
  "degrees x = x * 180 / pi"

definition np_arctan2 :: "real \<Rightarrow> real \<Rightarrow> real" where
  \<comment> \<open>\<open>np.arctan2(y, x)\<close>: the angle of the point \<open>(x, y)\<close>, in \<open>(-\<pi>, \<pi>]\<close>, and \<open>0\<close> at the
      origin (the sign of a zero is not modelled)\<close>
  "np_arctan2 y x =
     (if 0 < x then arctan (y / x)
      else if x < 0 then (if 0 \<le> y then arctan (y / x) + pi else arctan (y / x) - pi)
      else if 0 < y then pi / 2 else if y < 0 then - (pi / 2) else 0)"

definition np_conj :: "complex option list \<Rightarrow> complex option list" where
  "np_conj v = map (map_option cnj) v"

definition np_outer :: "complex option list \<Rightarrow> complex option list \<Rightarrow> complex option list list" where
  "np_outer a b = map (\<lambda>x. map (\<lambda>y. lift2 (*) x y) b) a"

definition mat_conj :: "complex option list list \<Rightarrow> complex option list list" where
  "mat_conj H = map np_conj H"

definition mat_times :: "complex option list list \<Rightarrow> complex option list list \<Rightarrow> complex option list list" where
  \<comment> \<open>\<open>A * B\<close> on two matrices of one shape: the product entry by entry\<close>
  "mat_times A B = map2 (\<lambda>r s. map2 (lift2 (*)) r s) A B"

fun np_sum :: "complex option list list \<Rightarrow> complex option" where
  \<comment> \<open>\<open>np.sum\<close> of a matrix: the sum of all its entries, \<open>0\<close> for none\<close>
  "np_sum H = foldr (lift2 (+)) (concat H) (Some 0)"

definition np_abs :: "complex option \<Rightarrow> real option" where
  "np_abs z = map_option cmod z"

definition fmax :: "real option \<Rightarrow> real option \<Rightarrow> real option" where
  "fmax x y = lift2 max x y"

definition np_max :: "real option list \<Rightarrow> error + real option" where
  \<comment> \<open>\<open>np.max\<close> raises on an empty array and returns nan if an entry is nan\<close>
  "np_max xs = (case xs of [] \<Rightarrow> Inl ValueError | x # ys \<Rightarrow> Inr (fold fmax ys x))"

definition np_log10 :: "real option \<Rightarrow> fl" where
  "np_log10 x =
     (case x of None \<Rightarrow> NaN
      | Some a \<Rightarrow> if a < 0 then NaN else if a = 0 then NegInf else Fin (log 10 a))"

fun times20 :: "fl \<Rightarrow> fl" where
  "times20 (Fin x) = Fin (20 * x)"
| "times20 NegInf = NegInf"
| "times20 NaN = NaN"

section \<open>The response function\<close>

definition windows :: "string \<Rightarrow> int \<Rightarrow> int \<Rightarrow> error + (real list \<times> real list)" where
  \<comment> \<open>lines 61 to 72: the raw windows \<open>(win_tx, win_rx)\<close>\<close>
  "windows window_type Nt Nr =
     (if window_type = ''Hamming'' then Inr (np_hamming Nt, np_hamming Nr)
      else if window_type = ''Hanning'' then Inr (np_hanning Nt, np_hanning Nr)
      else if window_type = ''Blackman'' then Inr (np_blackman Nt, np_blackman Nr)
      else (case np_ones Nt of Inl e \<Rightarrow> Inl e
            | Inr win_tx \<Rightarrow> (case np_ones Nr of Inl e \<Rightarrow> Inl e
                            | Inr win_rx \<Rightarrow> Inr (win_tx, win_rx))))"

definition normalize_win :: "real list \<Rightarrow> real option list" where
  \<comment> \<open>lines 75 and 76: \<open>win / np.linalg.norm(win)\<close>\<close>
  "normalize_win win = map (\<lambda>x. fdiv (Some x) (Some (l2norm win))) win"

definition steering :: "real option list \<Rightarrow> int \<Rightarrow> real \<Rightarrow> complex option list" where
  \<comment> \<open>lines 79, 80, 87 and 88:
      \<open>win * np.exp(1j * k * d * np.arange(N) * np.sin(np.radians(ang)))\<close>\<close>
  "steering win N ang =
     (let d = 0.5 :: real; k = 2 * pi in
      map2 (\<lambda>w n. lift2 (*) (map_option complex_of_real w)
                     (Some (exp (\<i> * complex_of_real k * complex_of_real d * of_nat n
                                   * complex_of_real (sin (radians ang))))))
        win (np_arange N))"

definition gain :: "real option list \<Rightarrow> real option list \<Rightarrow> int \<Rightarrow> int \<Rightarrow>
    complex option list list \<Rightarrow> real \<Rightarrow> real option" where
  \<comment> \<open>lines 87 to 90: the body of the loop, for one angle of the sweep\<close>
  "gain win_tx win_rx Nt Nr H ang =
     (let tx_vec = steering win_tx Nt ang;
          rx_vec = steering win_rx Nr ang;
          H_steer = np_outer rx_vec (np_conj tx_vec)
      in np_abs (np_sum (mat_times H_steer (mat_conj H))))"

definition mimo_array_response :: "int \<Rightarrow> int \<Rightarrow> real \<Rightarrow> real list \<Rightarrow> string \<Rightarrow> error + fl list" where
  "mimo_array_response Nt Nr theta_user theta window_type =
     (case windows window_type Nt Nr of
        Inl e \<Rightarrow> Inl e
      | Inr (raw_tx, raw_rx) \<Rightarrow>
          (let win_tx = normalize_win raw_tx;
               win_rx = normalize_win raw_rx;
               tx_vec_user = steering win_tx Nt theta_user;
               rx_vec_user = steering win_rx Nr theta_user;
               H = np_outer rx_vec_user (np_conj tx_vec_user);
               response = map (gain win_tx win_rx Nt Nr H) theta
           in (case np_max response of
                 Inl e \<Rightarrow> Inl e
               | Inr m \<Rightarrow> Inr (map (\<lambda>g. times20 (np_log10 (fdiv g m))) response))))"

section \<open>The steering angle from a location\<close>

definition fold_angle :: "real \<Rightarrow> real" where
  \<comment> \<open>lines 109 to 112\<close>
  "fold_angle theta_from_location =
     (if theta_from_location > 90 then 180 - theta_from_location
      else if theta_from_location < - 90 then - 180 - theta_from_location
      else theta_from_location)"

definition final_theta :: "(real \<times> real) option \<Rightarrow> real" where
  \<comment> \<open>lines 97 to 117, from the location \<open>(user_lat, user_lon)\<close> if there is one\<close>
  "final_theta location =
     (case location of
        None \<Rightarrow> 0
      | Some (user_lat, user_lon) \<Rightarrow>
          (let bs_lat = 28.7041; bs_lon = 77.1025;
               delta_lon = user_lon - bs_lon;
               delta_lat = user_lat - bs_lat;
               angle_rad = np_arctan2 delta_lon delta_lat;
               theta_from_location = degrees angle_rad
           in fold_angle theta_from_location))"

section \<open>The response with finite windows, in closed form\<close>

text \<open>
  The notions of this section are not the program's: they name what the program computes
  when no window coefficient is nan, so that the proofs can work on complex numbers
  instead of optional ones (\<open>gain_Some\<close> below is the link).  \<open>phase n ang\<close> is the
  exponential of element \<open>n\<close>, \<open>sv\<close> a steering vector, \<open>entry\<close> one entry of
  \<open>H_steer * H.conj()\<close>, \<open>corr\<close> the gain, \<open>power_sum\<close> the sum of the entries' moduli
  and \<open>unit_window\<close> a window divided by its norm.
\<close>

definition phase :: "nat \<Rightarrow> real \<Rightarrow> complex" where
  "phase n ang = exp (\<i> * complex_of_real (2 * pi) * complex_of_real 0.5 * of_nat n
                        * complex_of_real (sin (radians ang)))"

definition sv :: "real list \<Rightarrow> int \<Rightarrow> real \<Rightarrow> complex list" where
  "sv w N ang = map (\<lambda>(x, n). complex_of_real x * phase n ang) (zip w (np_arange N))"

definition entry :: "real \<Rightarrow> real \<Rightarrow> (real \<times> nat) \<times> (real \<times> nat) \<Rightarrow> complex" where
  "entry theta_user ang pq =
     (case pq of ((wr, i), (wt, j)) \<Rightarrow>
        (complex_of_real wr * phase i ang) * cnj (complex_of_real wt * phase j ang)
        * cnj ((complex_of_real wr * phase i theta_user)
               * cnj (complex_of_real wt * phase j theta_user)))"

definition corr :: "real list \<Rightarrow> real list \<Rightarrow> int \<Rightarrow> int \<Rightarrow> real \<Rightarrow> real \<Rightarrow> real" where
  "corr wt wr Nt Nr theta_user ang =
     cmod (sum_list (map (entry theta_user ang)
             (List.product (zip wr (np_arange Nr)) (zip wt (np_arange Nt)))))"

definition power_sum :: "real list \<Rightarrow> real list \<Rightarrow> int \<Rightarrow> int \<Rightarrow> real" where
  "power_sum wt wr Nt Nr =
     sum_list (map (\<lambda>pq. (fst (fst pq))\<^sup>2 * (fst (snd pq))\<^sup>2)
       (List.product (zip wr (np_arange Nr)) (zip wt (np_arange Nt))))"

definition unit_window :: "real list \<Rightarrow> real list" where
  "unit_window w = map (\<lambda>x. x / l2norm w) w"

section \<open>Lemmas: the structure of the response\<close>

lemma windows_fallback:
  assumes "window_type \<noteq> ''Hamming''" "window_type \<noteq> ''Hanning''" "window_type \<noteq> ''Blackman''"
  shows "windows window_type Nt Nr = windows ''Uniform'' Nt Nr"
  using assms by (simp add: windows_def)

lemma windows_uniform:
  "0 \<le> Nt \<Longrightarrow> 0 \<le> Nr \<Longrightarrow>
   windows ''Uniform'' Nt Nr = Inr (replicate (nat Nt) 1, replicate (nat Nr) 1)"
  by (simp add: windows_def np_ones_def)

lemma np_max_error: "(\<exists>e. np_max xs = Inl e) \<longleftrightarrow> xs = []"
  by (cases xs) (simp_all add: np_max_def)

lemma windows_error:
  "(\<exists>e. windows window_type Nt Nr = Inl e) \<longleftrightarrow>
     (window_type \<noteq> ''Hamming'' \<and> window_type \<noteq> ''Hanning'' \<and> window_type \<noteq> ''Blackman''
        \<and> (Nt < 0 \<or> Nr < 0))"
  by (auto simp add: windows_def np_ones_def)

lemma response_error:
  "(\<exists>e. mimo_array_response Nt Nr theta_user theta window_type = Inl e) \<longleftrightarrow>
     ((\<exists>e. windows window_type Nt Nr = Inl e) \<or> theta = [])"
proof (cases "windows window_type Nt Nr")
  case (Inl e)
  then show ?thesis by (simp add: mimo_array_response_def)
next
  case (Inr p)
  obtain a b where p: "p = (a, b)" by (cases p)
  let ?r = "map (gain (normalize_win a) (normalize_win b) Nt Nr
      (np_outer (steering (normalize_win b) Nr theta_user)
         (np_conj (steering (normalize_win a) Nt theta_user)))) theta"
  have "(\<exists>e. mimo_array_response Nt Nr theta_user theta window_type = Inl e)
      \<longleftrightarrow> (\<exists>e. np_max ?r = Inl e)"
    using Inr p by (simp add: mimo_array_response_def Let_def split: sum.splits)
  also have "\<dots> \<longleftrightarrow> theta = []"
    by (simp add: np_max_error)
  finally show ?thesis using Inr by simp
qed

lemma response_length:
  "mimo_array_response Nt Nr theta_user theta window_type = Inr out \<Longrightarrow>
   length out = length theta"
  by (auto simp add: mimo_array_response_def Let_def split: sum.splits prod.splits)

section \<open>Lemmas: finite windows\<close>

lemma lift2_Some [simp]: "lift2 f (Some a) (Some b) = Some (f a b)"
  by (simp add: lift2_def)

lemma steering_Some: "steering (map Some w) N ang = map Some (sv w N ang)"
  by (simp add: steering_def sv_def phase_def zip_map1 split_def)

lemma np_conj_Some: "np_conj (map Some v) = map Some (map cnj v)"
  by (simp add: np_conj_def)

lemma np_outer_Some:
  "np_outer (map Some a) (map Some b) = map (map Some) (map (\<lambda>x. map (\<lambda>y. x * y) b) a)"
  by (simp add: np_outer_def)

lemma mat_conj_Some: "mat_conj (map (map Some) M) = map (map Some) (map (map cnj) M)"
  by (simp add: mat_conj_def np_conj_def)

lemma map2_lift2_Some: "map2 (lift2 f) (map Some r) (map Some s) = map Some (map2 f r s)"
  by (simp add: zip_map_map split_def)

lemma mat_times_Some:
  "mat_times (map (map Some) A) (map (map Some) B) = map (map Some) (map2 (map2 (*)) A B)"
  by (simp add: mat_times_def zip_map_map split_def map2_lift2_Some)

lemma foldr_lift2_Some: "foldr (lift2 (+)) (map Some xs) (Some 0) = Some (sum_list xs)"
  by (induction xs) simp_all

lemma np_sum_Some: "np_sum (map (map Some) M) = Some (sum_list (concat M))"
  by (simp add: map_concat [symmetric] foldr_lift2_Some)

lemma map2_same: "map2 f (map g xs) (map h xs) = map (\<lambda>x. f (g x) (h x)) xs"
  by (simp add: zip_map_map zip_same_conv_map)

lemma concat_map_product:
  "concat (map (\<lambda>p. map (\<lambda>q. F (p, q)) ys) xs) = map F (List.product xs ys)"
  by (induction xs) simp_all

lemma map2_map2_same:
  "map2 (map2 f) (map (\<lambda>p. map (A p) ys) xs) (map (\<lambda>p. map (B p) ys) xs)
     = map (\<lambda>p. map (\<lambda>q. f (A p q) (B p q)) ys) xs"
  by (simp add: map2_same)

lemma gain_Some:
  "gain (map Some wt) (map Some wr) Nt Nr
     (np_outer (steering (map Some wr) Nr theta_user)
        (np_conj (steering (map Some wt) Nt theta_user))) ang
   = Some (corr wt wr Nt Nr theta_user ang)"
proof -
  let ?rp = "zip wr (np_arange Nr)" and ?tq = "zip wt (np_arange Nt)"
  let ?a = "\<lambda>th p. complex_of_real (fst p) * phase (snd p) th"
  let ?M = "\<lambda>th. map (\<lambda>p. map (\<lambda>q. ?a th p * cnj (?a th q)) ?tq) ?rp"
  have outer: "map (\<lambda>x. map (\<lambda>y. x * y) (map cnj (sv wt Nt th))) (sv wr Nr th) = ?M th" for th
    by (simp add: sv_def split_def)
  have cnjM: "map (map cnj) (?M theta_user)
      = map (\<lambda>p. map (\<lambda>q. cnj (?a theta_user p * cnj (?a theta_user q))) ?tq) ?rp"
    by simp
  have "map2 (map2 (*)) (?M ang) (map (map cnj) (?M theta_user))
      = map (\<lambda>p. map (\<lambda>q. entry theta_user ang (p, q)) ?tq) ?rp"
    unfolding cnjM map2_map2_same by (simp add: entry_def split_def)
  then have "sum_list (concat (map2 (map2 (*)) (?M ang) (map (map cnj) (?M theta_user))))
      = sum_list (map (entry theta_user ang) (List.product ?rp ?tq))"
    by (simp only: concat_map_product)
  then show ?thesis
    by (simp only: gain_def Let_def steering_Some np_conj_Some np_outer_Some mat_conj_Some
        mat_times_Some np_sum_Some np_abs_def outer corr_def option.map)
qed

lemma phase_cis: "phase n ang = cis (pi * real n * sin (radians ang))"
  by (simp add: phase_def cis_conv_exp mult_ac)

lemma norm_phase [simp]: "cmod (phase n ang) = 1"
  by (simp add: phase_cis)

lemma phase_neg: "phase n (- ang) = cnj (phase n ang)"
  by (simp add: phase_cis radians_def cis_cnj)

lemma phase_zero [simp]: "phase n 0 = 1"
  by (simp add: phase_cis radians_def)

lemma cmod_entry:
  "cmod (entry theta_user ang pq) = (fst (fst pq))\<^sup>2 * (fst (snd pq))\<^sup>2"
proof -
  obtain wr i wt j where pq: "pq = ((wr, i), (wt, j))"
    by (metis prod.collapse)
  have "cmod (entry theta_user ang pq) = (\<bar>wr\<bar> * \<bar>wt\<bar>) * (\<bar>wr\<bar> * \<bar>wt\<bar>)"
    by (simp add: entry_def pq norm_mult)
  also have "\<dots> = (\<bar>wr\<bar> * \<bar>wr\<bar>) * (\<bar>wt\<bar> * \<bar>wt\<bar>)"
    by (simp only: mult_ac)
  also have "\<dots> = wr\<^sup>2 * wt\<^sup>2"
    by (simp add: power2_eq_square)
  finally show ?thesis by (simp add: pq)
qed

lemma entry_peak:
  "entry theta_user theta_user pq
     = complex_of_real ((fst (fst pq))\<^sup>2 * (fst (snd pq))\<^sup>2)"
proof -
  obtain wr i wt j where pq: "pq = ((wr, i), (wt, j))"
    by (metis prod.collapse)
  let ?z = "(complex_of_real wr * phase i theta_user)
              * cnj (complex_of_real wt * phase j theta_user)"
  have "entry theta_user theta_user pq = ?z * cnj ?z"
    by (simp add: entry_def pq)
  also have "\<dots> = complex_of_real ((cmod ?z)\<^sup>2)"
    by (rule complex_norm_square [symmetric])
  also have "(cmod ?z)\<^sup>2 = wr\<^sup>2 * wt\<^sup>2"
    by (simp add: norm_mult power_mult_distrib)
  finally show ?thesis by (simp add: pq)
qed

lemma entry_neg: "entry 0 (- ang) pq = cnj (entry 0 ang pq)"
  by (simp add: entry_def split_def phase_neg)

lemma norm_sum_list_le:
  "cmod (sum_list (map f xs)) \<le> sum_list (map (\<lambda>x. cmod (f x)) xs)"
proof (induction xs)
  case Nil
  show ?case by simp
next
  case (Cons x xs)
  have "cmod (f x + sum_list (map f xs)) \<le> cmod (f x) + cmod (sum_list (map f xs))"
    by (rule norm_triangle_ineq)
  with Cons show ?case by simp
qed

lemma sum_list_of_real:
  "sum_list (map (\<lambda>x. complex_of_real (g x)) xs) = complex_of_real (sum_list (map g xs))"
  by (induction xs) simp_all

lemma sum_list_cnj: "sum_list (map (\<lambda>x. cnj (f x)) xs) = cnj (sum_list (map f xs))"
  by (induction xs) simp_all

lemma power_sum_nonneg: "0 \<le> power_sum wt wr Nt Nr"
  unfolding power_sum_def by (rule sum_list_nonneg) auto

lemma corr_peak: "corr wt wr Nt Nr theta_user theta_user = power_sum wt wr Nt Nr"
proof -
  let ?L = "List.product (zip wr (np_arange Nr)) (zip wt (np_arange Nt))"
  have "map (entry theta_user theta_user) ?L
      = map (\<lambda>pq. complex_of_real ((fst (fst pq))\<^sup>2 * (fst (snd pq))\<^sup>2)) ?L"
    by (simp add: entry_peak)
  then have "sum_list (map (entry theta_user theta_user) ?L)
      = complex_of_real (power_sum wt wr Nt Nr)"
    by (simp only: sum_list_of_real power_sum_def)
  then show ?thesis
    using power_sum_nonneg [of wt wr Nt Nr] by (simp add: corr_def)
qed

lemma corr_le_power_sum: "corr wt wr Nt Nr theta_user ang \<le> power_sum wt wr Nt Nr"
  unfolding corr_def power_sum_def
  using norm_sum_list_le [of "entry theta_user ang"] by (simp add: cmod_entry)

lemma corr_le_peak:
  "corr wt wr Nt Nr theta_user ang \<le> corr wt wr Nt Nr theta_user theta_user"
  by (simp add: corr_peak corr_le_power_sum)

lemma corr_nonneg: "0 \<le> corr wt wr Nt Nr theta_user ang"
  by (simp add: corr_def)

lemma corr_symmetric: "corr wt wr Nt Nr 0 (- ang) = corr wt wr Nt Nr 0 ang"
  by (simp add: corr_def entry_neg [abs_def] sum_list_cnj)

lemma sum_list_product:
  "sum_list (map (\<lambda>pq. f (fst pq) * g (snd pq)) (List.product xs ys))
     = sum_list (map f xs) * sum_list (map g ys)" for f g :: "'a \<Rightarrow> real"
proof (induction xs)
  case Nil
  show ?case by simp
next
  case (Cons x xs)
  have "sum_list (map (\<lambda>pq. f (fst pq) * g (snd pq)) (map (Pair x) ys))
      = f x * sum_list (map g ys)"
    by (simp add: comp_def sum_list_const_mult)
  with Cons show ?case by (simp add: algebra_simps)
qed

lemma power_sum_l2norm:
  assumes "length wt = nat Nt" and "length wr = nat Nr"
  shows "power_sum wt wr Nt Nr = (l2norm wr)\<^sup>2 * (l2norm wt)\<^sup>2"
proof -
  have fst_zip: "map (\<lambda>p. (fst p)\<^sup>2) (zip w (np_arange N)) = map (\<lambda>x. x\<^sup>2) w"
    if "length w = nat N" for w :: "real list" and N
  proof -
    have "map (\<lambda>p. (fst p)\<^sup>2) (zip w (np_arange N))
        = map (\<lambda>x. x\<^sup>2) (map fst (zip w (np_arange N)))"
      by (simp add: comp_def)
    also have "map fst (zip w (np_arange N)) = w"
      using that by (simp add: np_arange_def)
    finally show ?thesis .
  qed
  have nonneg: "0 \<le> sum_list (map (\<lambda>x. x\<^sup>2) w)" for w :: "real list"
    by (rule sum_list_nonneg) auto
  have "power_sum wt wr Nt Nr
      = sum_list (map (\<lambda>p. (fst p)\<^sup>2) (zip wr (np_arange Nr)))
        * sum_list (map (\<lambda>p. (fst p)\<^sup>2) (zip wt (np_arange Nt)))"
    unfolding power_sum_def by (rule sum_list_product)
  then show ?thesis
    using assms by (simp add: fst_zip l2norm_def nonneg)
qed

section \<open>Lemmas: windows and evaluation\<close>

lemmas eval_defs = mimo_array_response_def windows_def np_ones_def np_hanning_def
  normalize_win_def l2norm_def fdiv_def steering_def np_arange_def gain_def
  np_outer_def np_conj_def mat_conj_def mat_times_def np_abs_def np_max_def fmax_def
  lift2_def np_log10_def radians_def

lemma upt_2: "[0..<2] = [0, Suc 0]"
  by (simp add: upt_rec)

lemma l2norm_zero: "l2norm w = 0 \<longleftrightarrow> (\<forall>x\<in>set w. x = 0)"
proof -
  have "sum_list (map (\<lambda>x. x\<^sup>2) w) = 0 \<longleftrightarrow> (\<forall>x\<in>set w. x = 0)"
  proof (induction w)
    case Nil
    show ?case by simp
  next
    case (Cons a w)
    have "0 \<le> sum_list (map (\<lambda>x. x\<^sup>2) w)"
      by (rule sum_list_nonneg) auto
    then have "a\<^sup>2 + sum_list (map (\<lambda>x. x\<^sup>2) w) = 0
        \<longleftrightarrow> a = 0 \<and> sum_list (map (\<lambda>x. x\<^sup>2) w) = 0"
      by (simp add: add_nonneg_eq_0_iff)
    with Cons show ?case by simp
  qed
  then show ?thesis by (simp add: l2norm_def)
qed

lemma sum_list_div_const:
  "sum_list (map (\<lambda>x. f x / c) xs) = sum_list (map f xs) / c" for c :: real
  by (induction xs) (simp_all add: add_divide_distrib)

lemma normalize_win_Some:
  assumes "w = [] \<or> l2norm w \<noteq> 0"
  shows "normalize_win w = map Some (map (\<lambda>x. x / l2norm w) w)"
  using assms by (auto simp add: normalize_win_def fdiv_def)

lemma l2norm_normalized:
  assumes "l2norm w \<noteq> 0"
  shows "l2norm (map (\<lambda>x. x / l2norm w) w) = 1"
proof -
  let ?s = "sum_list (map (\<lambda>x. x\<^sup>2) w)"
  have pos: "0 \<le> ?s" by (rule sum_list_nonneg) auto
  have "sum_list (map (\<lambda>x. (x / l2norm w)\<^sup>2) w) = sum_list (map (\<lambda>x. x\<^sup>2 / ?s) w)"
    using pos by (simp add: l2norm_def power_divide)
  also have "\<dots> = ?s / ?s"
    by (simp add: sum_list_div_const)
  finally have "sum_list (map (\<lambda>x. (x / l2norm w)\<^sup>2) w) = 1"
    using assms by (simp add: l2norm_def)
  then show ?thesis by (simp add: l2norm_def comp_def)
qed

lemma length_windows:
  assumes "windows window_type Nt Nr = Inr (raw_tx, raw_rx)"
  shows "length raw_tx = nat Nt \<and> length raw_rx = nat Nr"
  using assms
  by (auto simp add: windows_def np_ones_def np_hamming_def np_hanning_def np_blackman_def
      split: if_splits)

lemma length_normalize_win [simp]: "length (normalize_win w) = length w"
  by (simp add: normalize_win_def)

lemma steering_nth:
  assumes "length win = nat N" and "n < nat N"
  shows "steering win N \<theta> ! n
     = map_option (\<lambda>w. complex_of_real w
           * exp (\<i> * complex_of_real (2 * pi * 0.5 * real n * sin (radians \<theta>)))) (win ! n)"
  using assms
  by (cases "win ! n") (simp_all add: steering_def np_arange_def lift2_def mult_ac)

lemma response_Some:
  assumes "windows window_type Nt Nr = Inr (raw_tx, raw_rx)"
    and "normalize_win raw_tx = map Some wt" and "normalize_win raw_rx = map Some wr"
  shows "mimo_array_response Nt Nr theta_user theta window_type =
     (case np_max (map (\<lambda>ang. Some (corr wt wr Nt Nr theta_user ang)) theta) of
        Inl e \<Rightarrow> Inl e
      | Inr m \<Rightarrow> Inr (map (\<lambda>ang. times20 (np_log10
                     (fdiv (Some (corr wt wr Nt Nr theta_user ang)) m))) theta))"
proof -
  have r: "map (gain (map Some wt) (map Some wr) Nt Nr
             (np_outer (steering (map Some wr) Nr theta_user)
                (np_conj (steering (map Some wt) Nt theta_user)))) theta
      = map (\<lambda>ang. Some (corr wt wr Nt Nr theta_user ang)) theta"
    by (simp add: gain_Some)
  show ?thesis
    unfolding mimo_array_response_def assms(1)
    by (simp add: Let_def assms(2,3) r gain_Some comp_def cong: sum.case_cong)
qed

section \<open>Lemmas: no antennas\<close>

lemma concat_mat_times_empty_rows:
  assumes "\<forall>r\<in>set A. r = []"
  shows "concat (mat_times A B) = []"
  using assms
proof (induction A arbitrary: B)
  case Nil
  show ?case by (simp add: mat_times_def)
next
  case (Cons r A)
  then have "concat (mat_times A B') = []" for B'
    by simp
  with Cons.prems show ?case
    by (cases B) (simp_all add: mat_times_def)
qed

lemma gain_no_antennas:
  assumes "Nt \<le> 0 \<or> Nr \<le> 0"
  shows "gain win_tx win_rx Nt Nr H ang = Some 0"
proof -
  have "\<forall>r\<in>set (np_outer (steering win_rx Nr ang) (np_conj (steering win_tx Nt ang))). r = []"
    using assms by (auto simp add: steering_def np_arange_def np_outer_def np_conj_def)
  then show ?thesis
    by (simp add: gain_def Let_def concat_mat_times_empty_rows np_abs_def)
qed

lemma fold_fmax_zero: "fold fmax (replicate n (Some 0)) (Some 0) = Some 0"
  by (induction n) (simp_all add: fmax_def)

lemma np_max_zeros: "0 < n \<Longrightarrow> np_max (replicate n (Some 0)) = Inr (Some 0)"
  by (cases n) (simp_all add: np_max_def fold_fmax_zero del: fold_replicate)

lemma response_no_antennas:
  assumes "windows window_type Nt Nr = Inr (raw_tx, raw_rx)"
    and "Nt \<le> 0 \<or> Nr \<le> 0" and "theta \<noteq> []"
  shows "mimo_array_response Nt Nr theta_user theta window_type
           = Inr (replicate (length theta) NaN)"
proof -
  have g: "map (gain win_tx win_rx Nt Nr H) theta = replicate (length theta) (Some 0)"
    for win_tx win_rx H
    by (induction theta) (simp_all add: gain_no_antennas [OF assms(2)])
  have m: "np_max (replicate (length theta) (Some 0)) = Inr (Some 0)"
    using assms(3) by (simp add: np_max_zeros)
  show ?thesis
    unfolding mimo_array_response_def assms(1)
    by (simp add: Let_def g m fdiv_def np_log10_def)
qed

section \<open>Lemmas: the response on windows of non-zero norm\<close>

lemma fold_fmax_Some:
  "fold fmax (map (\<lambda>a. Some (g a)) ys) (Some m) = Some (fold max (map g ys) m)"
  by (induction ys arbitrary: m) (simp_all add: fmax_def max.commute)

lemma np_max_Some:
  assumes "theta \<noteq> []"
  shows "np_max (map (\<lambda>ang. Some (g ang)) theta) = Inr (Some (Max (g ` set theta)))"
proof -
  obtain x ys where theta: "theta = x # ys"
    using assms by (cases theta) auto
  have "Max (set (g x # map g ys)) = fold max (map g ys) (g x)"
    by (rule Max.set_eq_fold)
  then show ?thesis
    by (simp add: theta np_max_def fold_fmax_Some)
qed

lemma max_gain_zero:
  assumes "\<forall>g\<in>set gs. 0 \<le> g" and "Max (set gs) = 0" and "g \<in> set gs"
  shows "g = (0 :: real)"
proof -
  have "g \<le> Max (set gs)"
    using assms(3) by simp
  with assms show ?thesis by force
qed

lemma response_finite:
  assumes "windows window_type Nt Nr = Inr (raw_tx, raw_rx)"
    and "l2norm raw_tx \<noteq> 0" and "l2norm raw_rx \<noteq> 0" and "theta \<noteq> []"
  shows "mimo_array_response Nt Nr theta_user theta window_type =
     Inr (map (\<lambda>ang. times20 (np_log10 (fdiv
            (Some (corr (unit_window raw_tx) (unit_window raw_rx) Nt Nr theta_user ang))
            (Some (Max (corr (unit_window raw_tx) (unit_window raw_rx) Nt Nr theta_user
                          ` set theta)))))) theta)"
proof -
  have t: "normalize_win raw_tx = map Some (unit_window raw_tx)"
    unfolding unit_window_def using assms(2) by (intro normalize_win_Some) simp
  have r: "normalize_win raw_rx = map Some (unit_window raw_rx)"
    unfolding unit_window_def using assms(3) by (intro normalize_win_Some) simp
  show ?thesis
    unfolding response_Some [OF assms(1) t r] np_max_Some [OF assms(4)] by simp
qed

lemma corr_peak_one:
  assumes "windows window_type Nt Nr = Inr (raw_tx, raw_rx)"
    and "l2norm raw_tx \<noteq> 0" and "l2norm raw_rx \<noteq> 0"
  shows "corr (unit_window raw_tx) (unit_window raw_rx) Nt Nr theta_user theta_user = 1"
proof -
  have len: "length (unit_window raw_tx) = nat Nt" "length (unit_window raw_rx) = nat Nr"
    using length_windows [OF assms(1)] by (simp_all add: unit_window_def)
  have "l2norm (unit_window raw_tx) = 1" "l2norm (unit_window raw_rx) = 1"
    using assms(2,3) by (simp_all add: unit_window_def l2norm_normalized)
  then show ?thesis
    by (simp add: corr_peak power_sum_l2norm [OF len])
qed

lemma decibel_le_zero:
  assumes "0 \<le> g" and "g \<le> m" and "0 < m"
  shows "fl_le (times20 (np_log10 (fdiv (Some g) (Some m)))) (Fin 0)"
proof (cases "g = 0")
  case True
  with assms show ?thesis by (simp add: fdiv_def np_log10_def)
next
  case False
  with assms have "0 < g / m" "g / m \<le> 1"
    by simp_all
  then have "log 10 (g / m) \<le> 0"
    by simp
  with \<open>0 < g / m\<close> assms show ?thesis
    by (simp add: fdiv_def np_log10_def)
qed

lemma decibel_zero:
  assumes "0 < m"
  shows "times20 (np_log10 (fdiv (Some m) (Some m))) = Fin 0"
  using assms by (simp add: fdiv_def np_log10_def)

text \<open>
  When both raw windows have a norm that is not zero and some gain of the sweep is not
  zero, the values returned are at most \<open>0\<close> and one of them is \<open>0\<close>.
\<close>

lemma normalization_max:
  assumes "windows window_type Nt Nr = Inr (raw_tx, raw_rx)"
    and "l2norm raw_tx \<noteq> 0" and "l2norm raw_rx \<noteq> 0"
    and "ang \<in> set theta"
    and "corr (unit_window raw_tx) (unit_window raw_rx) Nt Nr theta_user ang \<noteq> 0"
  shows "\<exists>out. mimo_array_response Nt Nr theta_user theta window_type = Inr out
           \<and> Fin 0 \<in> set out \<and> (\<forall>x\<in>set out. fl_le x (Fin 0))"
proof -
  let ?G = "corr (unit_window raw_tx) (unit_window raw_rx) Nt Nr theta_user"
  let ?m = "Max (?G ` set theta)"
  let ?out = "map (\<lambda>a. times20 (np_log10 (fdiv (Some (?G a)) (Some ?m)))) theta"
  have ne: "theta \<noteq> []"
    using assms(4) by auto
  have out: "mimo_array_response Nt Nr theta_user theta window_type = Inr ?out"
    using assms(1-3) ne by (rule response_finite)
  have "0 < ?G ang"
    using assms(5) corr_nonneg [of "unit_window raw_tx" "unit_window raw_rx" Nt Nr theta_user ang]
    by simp
  moreover have "?G ang \<le> ?m"
    using assms(4) by simp
  ultimately have pos: "0 < ?m"
    by simp
  have "?m \<in> ?G ` set theta"
    using ne by (intro Max_in) simp_all
  then obtain a where a: "a \<in> set theta" "?G a = ?m"
    by auto
  have "times20 (np_log10 (fdiv (Some (?G a)) (Some ?m))) = Fin 0"
    unfolding a(2) using pos by (rule decibel_zero)
  with a(1) have zero: "Fin 0 \<in> set ?out"
    by (force simp add: image_iff)
  have le: "fl_le x (Fin 0)" if "x \<in> set ?out" for x
  proof -
    from that obtain b where b: "b \<in> set theta"
      "x = times20 (np_log10 (fdiv (Some (?G b)) (Some ?m)))"
      by auto
    have "?G b \<le> ?m"
      using b(1) by simp
    then show ?thesis
      unfolding b(2) using pos by (intro decibel_le_zero corr_nonneg)
  qed
  from out zero le show ?thesis
    by blast
qed

text \<open>
  When both raw windows have a norm that is not zero and the sweep contains the steering
  angle, the value returned there is \<open>0\<close> and no other value is larger.
\<close>

lemma peak_alignment:
  assumes "windows window_type Nt Nr = Inr (raw_tx, raw_rx)"
    and "l2norm raw_tx \<noteq> 0" and "l2norm raw_rx \<noteq> 0"
    and "i < length theta" and "theta ! i = theta_user"
  shows "\<exists>out. mimo_array_response Nt Nr theta_user theta window_type = Inr out
           \<and> out ! i = Fin 0 \<and> (\<forall>j<length out. fl_le (out ! j) (out ! i))"
proof -
  let ?G = "corr (unit_window raw_tx) (unit_window raw_rx) Nt Nr theta_user"
  let ?m = "Max (?G ` set theta)"
  let ?out = "map (\<lambda>a. times20 (np_log10 (fdiv (Some (?G a)) (Some ?m)))) theta"
  have mem: "theta_user \<in> set theta"
    using assms(4,5) by (metis nth_mem)
  then have ne: "theta \<noteq> []"
    by auto
  have out: "mimo_array_response Nt Nr theta_user theta window_type = Inr ?out"
    using assms(1-3) ne by (rule response_finite)
  have one: "?G theta_user = 1"
    using assms(1-3) by (rule corr_peak_one)
  have m: "?m = 1"
  proof (rule Max_eqI)
    show "finite (?G ` set theta)" by simp
    show "y \<le> 1" if "y \<in> ?G ` set theta" for y
      using that corr_le_peak [of "unit_window raw_tx" "unit_window raw_rx" Nt Nr theta_user]
      by (auto simp add: one)
    show "1 \<in> ?G ` set theta"
      using mem one by (metis image_eqI)
  qed
  have peak: "?out ! i = Fin 0"
    using assms(4,5) by (simp add: one m fdiv_def np_log10_def)
  have "fl_le (?out ! j) (Fin 0)" if "j < length theta" for j
  proof -
    have "?G (theta ! j) \<le> ?m"
      using that by simp
    then have "fl_le (times20 (np_log10 (fdiv (Some (?G (theta ! j))) (Some ?m)))) (Fin 0)"
      by (intro decibel_le_zero corr_nonneg) (simp_all add: m)
    with that show ?thesis by simp
  qed
  with out peak show ?thesis
    by (intro exI [of _ ?out]) simp
qed

section \<open>Lemmas: the norm of the raw windows\<close>

text \<open>
  The raw window has norm zero for the Hanning window of length 2, whose coefficients are
  \<open>[0., 0.]\<close>, and for no other window of a length \<open>N \<ge> 1\<close>.
\<close>

lemma window_norm_one:
  assumes "l2norm w \<noteq> 0"
  shows "normalize_win w = map Some (unit_window w) \<and> l2norm (unit_window w) = 1"
  using assms by (simp add: unit_window_def normalize_win_Some l2norm_normalized)

lemma l2norm_nonzero: "x \<in> set w \<Longrightarrow> x \<noteq> 0 \<Longrightarrow> l2norm w \<noteq> 0"
  by (auto simp add: l2norm_zero)

lemma ones_norm: "1 \<le> N \<Longrightarrow> l2norm (replicate (nat N) 1) \<noteq> 0"
  by (rule l2norm_nonzero [of 1]) auto

lemma cos_less_one:
  assumes "0 < x" and "x \<le> pi"
  shows "cos x < 1"
  using cos_monotone_0_pi [of 0 x] assms by simp

lemma second_sample_angle:
  assumes "3 \<le> M"
  shows "0 < 2 * pi * real 1 / real_of_int (M - 1)"
    and "2 * pi * real 1 / real_of_int (M - 1) \<le> pi"
proof -
  have "2 \<le> real_of_int (M - 1)"
    using assms by simp
  then show "0 < 2 * pi * real 1 / real_of_int (M - 1)"
    by simp
  have "2 * pi \<le> pi * real_of_int (M - 1)"
    using \<open>2 \<le> real_of_int (M - 1)\<close> by (simp add: mult.commute)
  then show "2 * pi * real 1 / real_of_int (M - 1) \<le> pi"
    using \<open>2 \<le> real_of_int (M - 1)\<close> by (simp add: pos_divide_le_eq)
qed

lemma one_in_upt: "3 \<le> M \<Longrightarrow> 1 \<in> set [0..<nat M]"
  by auto

lemma hamming_norm:
  assumes "1 \<le> M"
  shows "l2norm (np_hamming M) \<noteq> 0"
proof (cases "M = 1")
  case True
  then show ?thesis by (simp add: np_hamming_def l2norm_def)
next
  case False
  let ?f = "\<lambda>n. 0.54 - 0.46 * cos (2 * pi * real n / real_of_int (M - 1))"
  have eq: "np_hamming M = map ?f [0..<nat M]"
    using assms False by (simp add: np_hamming_def)
  have "0 \<in> set [0..<nat M]"
    using assms by simp
  then have "?f 0 \<in> set (np_hamming M)"
    unfolding eq set_map by (rule imageI)
  moreover have "?f 0 \<noteq> 0"
    by simp
  ultimately show ?thesis
    by (rule l2norm_nonzero)
qed

lemma hanning_norm:
  assumes "1 \<le> M" and "M \<noteq> 2"
  shows "l2norm (np_hanning M) \<noteq> 0"
proof (cases "M = 1")
  case True
  then show ?thesis by (simp add: np_hanning_def l2norm_def)
next
  case False
  with assms have M: "3 \<le> M" by simp
  let ?f = "\<lambda>n. 0.5 - 0.5 * cos (2 * pi * real n / real_of_int (M - 1))"
  have eq: "np_hanning M = map ?f [0..<nat M]"
    using M by (simp add: np_hanning_def)
  have "?f 1 \<in> set (np_hanning M)"
    unfolding eq set_map using one_in_upt [OF M] by (rule imageI)
  moreover have "cos (2 * pi * real 1 / real_of_int (M - 1)) < 1"
    using second_sample_angle [OF M] by (rule cos_less_one)
  then have "?f 1 \<noteq> 0"
    by simp
  ultimately show ?thesis
    by (rule l2norm_nonzero)
qed

lemma blackman_norm:
  assumes "1 \<le> M"
  shows "l2norm (np_blackman M) \<noteq> 0"
proof (cases "M = 1 \<or> M = 2")
  case True
  then show ?thesis by (auto simp add: np_blackman_def l2norm_def)
next
  case False
  with assms have M: "3 \<le> M" by simp
  let ?x = "2 * pi * real 1 / real_of_int (M - 1)"
  let ?f = "\<lambda>n. 0.42 - 0.5 * cos (2 * pi * real n / real_of_int (M - 1))
                   + 0.08 * cos (4 * pi * real n / real_of_int (M - 1))"
  have eq: "np_blackman M = map ?f [0..<nat M]"
    using M by (simp add: np_blackman_def)
  have mem: "?f 1 \<in> set (np_blackman M)"
    unfolding eq set_map using one_in_upt [OF M] by (rule imageI)
  have c: "cos ?x < 1"
    using second_sample_angle [OF M] by (rule cos_less_one)
  have "4 * pi * real 1 / real_of_int (M - 1) = 2 * ?x"
    by simp
  then have "?f 1 = 0.42 - 0.5 * cos ?x + 0.08 * (2 * (cos ?x)\<^sup>2 - 1)"
    by (simp only: cos_double_cos)
  also have "\<dots> = 0.16 * ((1 - cos ?x) * (2.125 - cos ?x))"
    by (simp add: power2_eq_square algebra_simps)
  also have "\<dots> > 0"
    using c by (intro mult_pos_pos) simp_all
  finally have "?f 1 \<noteq> 0"
    by simp
  with mem show ?thesis
    by (rule l2norm_nonzero)
qed

lemma window_norms:
  assumes "windows window_type Nt Nr = Inr (raw_tx, raw_rx)" and "1 \<le> Nt" and "1 \<le> Nr"
    and "window_type \<noteq> ''Hanning'' \<or> (Nt \<noteq> 2 \<and> Nr \<noteq> 2)"
  shows "l2norm raw_tx \<noteq> 0 \<and> l2norm raw_rx \<noteq> 0"
  using assms
  by (auto simp add: windows_def np_ones_def hamming_norm hanning_norm blackman_norm ones_norm
      split: if_splits)

section \<open>The window with zero norm\<close>

text \<open>
  Every other window of a length \<open>N \<ge> 1\<close> is normalized to a finite window of Euclidean
  norm 1.
\<close>

lemma window_unit_norm:
  assumes "windows window_type Nt Nr = Inr (raw_tx, raw_rx)" and "1 \<le> Nt" and "1 \<le> Nr"
    and "window_type \<noteq> ''Hanning'' \<or> (Nt \<noteq> 2 \<and> Nr \<noteq> 2)"
  shows "\<exists>win_tx win_rx.
           normalize_win raw_tx = map Some win_tx \<and> length win_tx = nat Nt \<and> l2norm win_tx = 1
         \<and> normalize_win raw_rx = map Some win_rx \<and> length win_rx = nat Nr \<and> l2norm win_rx = 1"
proof -
  have n: "l2norm raw_tx \<noteq> 0" "l2norm raw_rx \<noteq> 0"
    using window_norms [OF assms] by simp_all
  have len: "length (unit_window raw_tx) = nat Nt" "length (unit_window raw_rx) = nat Nr"
    using length_windows [OF assms(1)] by (simp_all add: unit_window_def)
  from window_norm_one [OF n(1)] window_norm_one [OF n(2)] len show ?thesis
    by blast
qed

lemma blackman_2_unit_norm:
  "\<exists>win. normalize_win (np_blackman 2) = map Some win \<and> length win = 2 \<and> l2norm win = 1"
proof -
  have "l2norm (np_blackman 2) \<noteq> 0"
    by (rule blackman_norm) simp
  from window_norm_one [OF this] show ?thesis
    by (intro exI [of _ "unit_window (np_blackman 2)"])
      (simp add: unit_window_def np_blackman_def)
qed

text \<open>
  C3. The claim: for every window kind and every length \<open>N \<ge> 1\<close> the normalized window
  has Euclidean norm 1, a unit impulse standing in when the raw coefficients have norm 0.
  The program divides by the norm whatever it is: \<open>np.hanning(2)\<close> is \<open>[0., 0.]\<close>, its
  norm is \<open>0.\<close>, and the normalized window is \<open>[nan, nan]\<close>, of no norm at all.
\<close>

theorem hanning_2_is_nan:
  "l2norm (np_hanning 2) = 0 \<and> normalize_win (np_hanning 2) = [None, None]"
  by (simp add: eval_defs upt_2)

text \<open>
  C2. The claim: for every valid input the largest value of the returned sequence is
  \<open>0.0\<close>.  With two transmit antennas and the Hanning window the transmit window is nan,
  and so is every value returned (\<open>normalization_max\<close> above is the claim away from the
  window of norm zero).
\<close>

theorem hanning_2_response_nan:
  "mimo_array_response 2 1 0 [0] ''Hanning'' = Inr [NaN]"
  by (simp add: eval_defs upt_2)

text \<open>
  C1. The claim: when the sweep contains the steering angle, the value returned at that
  index is the maximum of the sequence.  With two receive antennas and the Hanning window
  the value at the steering angle (index 1 here) is nan, which is the maximum of nothing
  (\<open>peak_alignment\<close> above is the claim away from the window of norm zero).
\<close>

theorem hanning_2_no_peak:
  "mimo_array_response 1 2 0 [5, 0] ''Hanning'' = Inr [NaN, NaN]
   \<and> \<not> fl_le ([NaN, NaN] ! 0) ([NaN, NaN] ! 1)"
  by (simp add: eval_defs upt_2)

section \<open>Window kinds outside the four\<close>

text \<open>
  C4, as stated: a window kind outside Uniform, Hamming, Hanning and Blackman is refused
  with an error and no response is produced.  It is not: the last branch of the selection
  takes every other string.
\<close>

theorem unknown_window_no_error:
  "''Triangle'' \<notin> {''Uniform'', ''Hamming'', ''Hanning'', ''Blackman''}
     \<and> mimo_array_response 1 1 0 [0] ''Triangle'' = Inr [Fin 0]"
  by (simp add: eval_defs)

text \<open>
  C4, amended: for a window kind outside the four names no error is signalled for the
  kind: the selection falls back to the all-ones windows, and with \<open>Nt \<ge> 0\<close>, \<open>Nr \<ge> 0\<close>
  and a non-empty sweep the function returns a response, one value for each angle of the
  sweep, which is the response of the Uniform kind.
\<close>

theorem unknown_window_returns:
  assumes "window_type \<notin> {''Uniform'', ''Hamming'', ''Hanning'', ''Blackman''}"
    and "0 \<le> Nt" and "0 \<le> Nr" and "theta \<noteq> []"
  shows "windows window_type Nt Nr = Inr (replicate (nat Nt) 1, replicate (nat Nr) 1)
       \<and> (\<exists>out. mimo_array_response Nt Nr theta_user theta window_type = Inr out
             \<and> length out = length theta
             \<and> mimo_array_response Nt Nr theta_user theta ''Uniform'' = Inr out)"
proof -
  have w: "windows window_type Nt Nr = windows ''Uniform'' Nt Nr"
    using assms(1) by (intro windows_fallback) simp_all
  then have r: "mimo_array_response Nt Nr theta_user theta window_type
           = mimo_array_response Nt Nr theta_user theta ''Uniform''"
    by (simp add: mimo_array_response_def)
  have "\<not> (\<exists>e. mimo_array_response Nt Nr theta_user theta window_type = Inl e)"
    using assms by (simp add: response_error windows_error)
  then obtain out where out: "mimo_array_response Nt Nr theta_user theta window_type = Inr out"
    by (cases "mimo_array_response Nt Nr theta_user theta window_type") auto
  have "length out = length theta"
    using out by (rule response_length)
  with out r w windows_uniform [OF assms(2,3)] show ?thesis
    by simp
qed

theorem unknown_window_returns_witness:
  "windows ''Triangle'' 1 1 = Inr ([1], [1])
   \<and> (\<exists>out. mimo_array_response 1 1 0 [0] ''Triangle'' = Inr out \<and> length out = 1
         \<and> mimo_array_response 1 1 0 [0] ''Uniform'' = Inr out)"
  using unknown_window_returns [of "''Triangle''" 1 1 "[0]" 0] by simp

text \<open>
  C9. For every \<open>window_type\<close> other than Hamming, Hanning and Blackman, Uniform and
  every unknown string included, the raw windows are those of the Uniform kind, all ones
  for both arrays, the response is the response of the Uniform kind, and nothing is raised
  (for lengths that are not negative and a sweep that is not empty, as for Uniform).
\<close>

theorem unknown_window_is_uniform:
  assumes "window_type \<noteq> ''Hamming''" and "window_type \<noteq> ''Hanning''"
    and "window_type \<noteq> ''Blackman''"
  shows "windows window_type Nt Nr = windows ''Uniform'' Nt Nr
       \<and> mimo_array_response Nt Nr theta_user theta window_type
           = mimo_array_response Nt Nr theta_user theta ''Uniform''
       \<and> (0 \<le> Nt \<and> 0 \<le> Nr \<longrightarrow>
            windows window_type Nt Nr = Inr (replicate (nat Nt) 1, replicate (nat Nr) 1))
       \<and> (0 \<le> Nt \<and> 0 \<le> Nr \<and> theta \<noteq> [] \<longrightarrow>
            (\<exists>out. mimo_array_response Nt Nr theta_user theta window_type = Inr out))"
proof -
  have w: "windows window_type Nt Nr = windows ''Uniform'' Nt Nr"
    using assms by (rule windows_fallback)
  have r: "mimo_array_response Nt Nr theta_user theta window_type
           = mimo_array_response Nt Nr theta_user theta ''Uniform''"
    by (simp add: mimo_array_response_def w)
  have "\<not> (\<exists>e. mimo_array_response Nt Nr theta_user theta window_type = Inl e)"
    if "0 \<le> Nt" "0 \<le> Nr" "theta \<noteq> []"
    using that by (simp add: response_error windows_error)
  then have "\<exists>out. mimo_array_response Nt Nr theta_user theta window_type = Inr out"
    if "0 \<le> Nt" "0 \<le> Nr" "theta \<noteq> []"
    using that by (cases "mimo_array_response Nt Nr theta_user theta window_type") auto
  with w r show ?thesis
    by (simp add: windows_uniform)
qed

theorem unknown_window_is_uniform_witness:
  "windows ''Kaiser'' 2 1 = Inr ([1, 1], [1])
   \<and> mimo_array_response 2 1 0 [0, 90] ''Kaiser'' = mimo_array_response 2 1 0 [0, 90] ''Uniform''
   \<and> (\<exists>out. mimo_array_response 2 1 0 [0, 90] ''Kaiser'' = Inr out)"
proof -
  have two: "replicate (nat 2) (1 :: real) = [1, 1]"
    by (simp add: numeral_2_eq_2)
  have one: "replicate (nat 1) (1 :: real) = [1]"
    by simp
  have "''Kaiser'' \<noteq> ''Hamming''" and "''Kaiser'' \<noteq> ''Hanning''"
    and "''Kaiser'' \<noteq> ''Blackman''"
    by simp_all
  note t = unknown_window_is_uniform [OF this, of 2 1 0 "[0, 90]"]
  have c: "(0 :: int) \<le> 2 \<and> (0 :: int) \<le> 1"
    by simp
  have d: "[0, 90] \<noteq> ([] :: real list)"
    by simp
  from t c d show ?thesis
    unfolding two one by blast
qed

section \<open>Errors\<close>

text \<open>
  C5, as stated: the function signals an error whenever \<open>Nt < 1\<close> or \<open>Nr < 1\<close>.
  It does not: with no transmit antenna every gain is \<open>0\<close>, the largest gain is \<open>0\<close>, and
  the function returns \<open>0/0\<close>, nan, for every angle.
\<close>

theorem zero_antennas_no_error:
  "mimo_array_response 0 1 0 [0] ''Uniform'' = Inr [NaN]"
  by (simp add: eval_defs)

text \<open>
  C5, amended: the function checks none of its inputs itself.  It raises (numpy's
  \<open>ValueError\<close>) exactly when the sweep is empty, or when the window is the all-ones one
  (any kind but Hamming, Hanning and Blackman) and \<open>Nt\<close> or \<open>Nr\<close> is negative.  In every
  other case it returns one value for each angle of the sweep, and all of them are nan
  when \<open>Nt < 1\<close> or \<open>Nr < 1\<close>.
\<close>

theorem response_errors:
  "((\<exists>e. mimo_array_response Nt Nr theta_user theta window_type = Inl e) \<longleftrightarrow>
      (theta = [] \<or> (window_type \<notin> {''Hamming'', ''Hanning'', ''Blackman''} \<and> (Nt < 0 \<or> Nr < 0))))
   \<and> (\<forall>out. mimo_array_response Nt Nr theta_user theta window_type = Inr out \<longrightarrow>
         length out = length theta \<and> (Nt < 1 \<or> Nr < 1 \<longrightarrow> out = replicate (length theta) NaN))"
proof (intro conjI allI impI)
  show "(\<exists>e. mimo_array_response Nt Nr theta_user theta window_type = Inl e) \<longleftrightarrow>
      (theta = [] \<or> (window_type \<notin> {''Hamming'', ''Hanning'', ''Blackman''} \<and> (Nt < 0 \<or> Nr < 0)))"
    by (auto simp add: response_error windows_error)
next
  fix out
  assume "mimo_array_response Nt Nr theta_user theta window_type = Inr out"
  then show "length out = length theta" by (rule response_length)
next
  fix out
  assume out: "mimo_array_response Nt Nr theta_user theta window_type = Inr out"
    and "Nt < 1 \<or> Nr < 1"
  then have le: "Nt \<le> 0 \<or> Nr \<le> 0" by auto
  have noerr: "\<not> (\<exists>e. mimo_array_response Nt Nr theta_user theta window_type = Inl e)"
    using out by simp
  then have theta: "theta \<noteq> []"
    by (simp add: response_error)
  from noerr obtain p where "windows window_type Nt Nr = Inr p"
    by (cases "windows window_type Nt Nr") (auto simp add: response_error)
  then obtain a b where "windows window_type Nt Nr = Inr (a, b)"
    by (cases p) simp
  from response_no_antennas [OF this le theta, of theta_user] out
  show "out = replicate (length theta) NaN" by simp
qed

theorem response_errors_witness:
  "\<not> (\<exists>e. mimo_array_response 0 1 0 [0] ''Uniform'' = Inl e)
   \<and> mimo_array_response 0 1 0 [0] ''Uniform'' = Inr [NaN]"
proof -
  note t = response_errors [of 0 1 0 "[0]" "''Uniform''"]
  have ne: "\<not> (\<exists>e. mimo_array_response 0 1 0 [0] ''Uniform'' = Inl e)"
    using t by simp
  then obtain out where o: "mimo_array_response 0 1 0 [0] ''Uniform'' = Inr out"
    by (cases "mimo_array_response 0 1 0 [0] ''Uniform''") auto
  with t have "out = replicate (length [0 :: real]) NaN"
    by simp
  with ne o show ?thesis by simp
qed

section \<open>The steering vectors\<close>

text \<open>
  C7. For every angle \<open>\<theta>\<close>, the transmit steering vector has \<open>Nt\<close> elements, element
  \<open>n\<close> being \<open>win_tx[n] * exp(i * 2\<pi> * 0.5 * n * sin(radians(\<theta>)))\<close>, and the receive
  steering vector is the same over \<open>Nr\<close> elements with \<open>win_rx\<close> (a nan coefficient gives
  a nan element).
\<close>

theorem steering_vector_elements:
  assumes "windows window_type Nt Nr = Inr (raw_tx, raw_rx)"
  shows "length (steering (normalize_win raw_tx) Nt \<theta>) = nat Nt
       \<and> length (steering (normalize_win raw_rx) Nr \<theta>) = nat Nr
       \<and> (\<forall>n < nat Nt. steering (normalize_win raw_tx) Nt \<theta> ! n
            = map_option (\<lambda>w. complex_of_real w
                * exp (\<i> * complex_of_real (2 * pi * 0.5 * real n * sin (radians \<theta>))))
                (normalize_win raw_tx ! n))
       \<and> (\<forall>n < nat Nr. steering (normalize_win raw_rx) Nr \<theta> ! n
            = map_option (\<lambda>w. complex_of_real w
                * exp (\<i> * complex_of_real (2 * pi * 0.5 * real n * sin (radians \<theta>))))
                (normalize_win raw_rx ! n))"
  using length_windows [OF assms]
  by (simp add: steering_nth) (simp add: steering_def np_arange_def)

theorem steering_vector_elements_witness:
  "length (steering (normalize_win [1, 1]) 2 90) = nat 2
   \<and> steering (normalize_win [1, 1]) 2 90 ! 1
       = map_option (\<lambda>w. complex_of_real w
            * exp (\<i> * complex_of_real (2 * pi * 0.5 * real 1 * sin (radians 90))))
           (normalize_win [1, 1] ! 1)"
proof -
  have "windows ''Uniform'' 2 1 = Inr ([1, 1], [1])"
    by (simp add: windows_def np_ones_def numeral_2_eq_2)
  from steering_vector_elements [OF this, of 90] show ?thesis
    by simp
qed

section \<open>Symmetries\<close>

lemma sin_radians_90 [simp]: "sin (radians 90) = 1" "sin (radians (- 90)) = - 1"
  by (simp_all add: radians_def)

lemma exp_i_pi_mult [simp]: "exp (\<i> * (complex_of_real pi * 2) * (1 / 2)) = - 1"
  "exp (- (\<i> * complex_of_real pi)) = - 1"
  by (simp_all add: exp_minus)

lemma fl_eq_refl: "fl_eq x x \<longleftrightarrow> x \<noteq> NaN"
  by (cases x) simp_all

lemma decibel_nan_iff:
  assumes "0 \<le> g" and "g \<le> m"
  shows "times20 (np_log10 (fdiv (Some g) (Some m))) = NaN \<longleftrightarrow> m = 0"
proof (cases "m = 0")
  case True
  then show ?thesis by (simp add: fdiv_def np_log10_def)
next
  case False
  with assms have "0 \<le> g / m" by simp
  with False show ?thesis
    by (simp add: fdiv_def np_log10_def)
qed

text \<open>
  C6, as stated: with the Uniform window, steering angle 0 and a symmetric sweep,
  \<open>gain_dB(\<theta>) == gain_dB(-\<theta>)\<close> for every angle of the sweep.  With two antennas on each
  side and the sweep \<open>[90, -90]\<close> both gains are \<open>0\<close>, the largest gain is \<open>0\<close>, and both
  values returned are \<open>0/0\<close>, nan, which is equal to nothing.
\<close>

theorem uniform_symmetry_nan:
  "mimo_array_response 2 2 0 [90, - 90] ''Uniform'' = Inr [NaN, NaN]
   \<and> \<not> fl_eq ([NaN, NaN] ! 0) ([NaN, NaN] ! 1)"
  by (simp add: eval_defs upt_2 numeral_2_eq_2)

text \<open>
  C6, amended: with the Uniform window and steering angle 0, the values returned for two
  angles \<open>\<theta>\<close> and \<open>-\<theta>\<close> of the sweep are the same float, so that
  \<open>gain_dB(\<theta>) == gain_dB(-\<theta>)\<close> holds exactly when that value is not nan; and it is not
  nan as soon as one value of the returned sequence is not nan.
\<close>

theorem uniform_symmetry:
  assumes "mimo_array_response Nt Nr 0 theta ''Uniform'' = Inr out"
    and "i < length theta" and "j < length theta" and "theta ! j = - theta ! i"
  shows "out ! i = out ! j
       \<and> (fl_eq (out ! i) (out ! j) \<longleftrightarrow> out ! i \<noteq> NaN)
       \<and> ((\<exists>k<length out. out ! k \<noteq> NaN) \<longrightarrow> fl_eq (out ! i) (out ! j))"
proof -
  have noerr: "\<not> (\<exists>e. mimo_array_response Nt Nr 0 theta ''Uniform'' = Inl e)"
    using assms(1) by simp
  then have "0 \<le> Nt" "0 \<le> Nr"
    by (auto simp add: response_error windows_error)
  then have w: "windows ''Uniform'' Nt Nr = Inr (replicate (nat Nt) 1, replicate (nat Nr) 1)"
    by (rule windows_uniform)
  have fin: "w = [] \<or> l2norm w \<noteq> 0" if "w = replicate n 1" for w :: "real list" and n
    using that by (cases n) (auto simp add: l2norm_zero)
  have nt: "normalize_win (replicate (nat Nt) 1) = map Some (unit_window (replicate (nat Nt) 1))"
    unfolding unit_window_def by (rule normalize_win_Some) (rule fin [OF refl])
  have nr: "normalize_win (replicate (nat Nr) 1) = map Some (unit_window (replicate (nat Nr) 1))"
    unfolding unit_window_def by (rule normalize_win_Some) (rule fin [OF refl])
  let ?G = "corr (unit_window (replicate (nat Nt) 1)) (unit_window (replicate (nat Nr) 1)) Nt Nr 0"
  let ?m = "Max (?G ` set theta)"
  let ?D = "\<lambda>ang. times20 (np_log10 (fdiv (Some (?G ang)) (Some ?m)))"
  have ne: "theta \<noteq> []"
    using assms(2) by auto
  have out: "out = map ?D theta"
    using assms(1) unfolding response_Some [OF w nt nr] np_max_Some [OF ne] by simp
  have eq: "out ! i = out ! j"
    using assms(2-4) by (simp add: out corr_symmetric)
  have nan: "out ! k = NaN \<longleftrightarrow> ?m = 0" if "k < length theta" for k
  proof -
    have "?G (theta ! k) \<le> ?m"
      using that by simp
    then have "?D (theta ! k) = NaN \<longleftrightarrow> ?m = 0"
      by (intro decibel_nan_iff corr_nonneg)
    with that show ?thesis by (simp add: out)
  qed
  have "fl_eq (out ! i) (out ! j) \<longleftrightarrow> out ! i \<noteq> NaN"
    by (simp add: eq [symmetric] fl_eq_refl)
  moreover have "fl_eq (out ! i) (out ! j)" if "\<exists>k<length out. out ! k \<noteq> NaN"
  proof -
    from that obtain k where "k < length theta" "out ! k \<noteq> NaN"
      by (auto simp add: out)
    then have "?m \<noteq> 0"
      using nan by blast
    then have "out ! i \<noteq> NaN"
      using nan [OF assms(2)] by simp
    then show ?thesis
      by (simp add: eq [symmetric] fl_eq_refl)
  qed
  ultimately show ?thesis
    using eq by blast
qed

theorem uniform_symmetry_witness:
  "\<exists>out. mimo_array_response 2 1 0 [0, 30, - 30] ''Uniform'' = Inr out
     \<and> out ! 0 = Fin 0 \<and> fl_eq (out ! 1) (out ! 2)"
proof -
  have w: "windows ''Uniform'' 2 1 = Inr (replicate (nat 2) 1, replicate (nat 1) 1)"
    by (rule windows_uniform) simp_all
  have "l2norm (replicate (nat 2) 1) \<noteq> 0" "l2norm (replicate (nat 1) 1) \<noteq> 0"
    by (rule ones_norm, simp)+
  from peak_alignment [OF w this, of 0 "[0, 30, - 30]" 0]
  obtain out where out: "mimo_array_response 2 1 0 [0, 30, - 30] ''Uniform'' = Inr out"
    and zero: "out ! 0 = Fin 0"
    by auto
  have len: "length out = 3"
    using response_length [OF out] by simp
  then have "\<exists>k<length out. out ! k \<noteq> NaN"
    using zero by (intro exI [of _ 0]) simp
  moreover have "1 < length [0, 30, - 30 :: real]" "2 < length [0, 30, - 30 :: real]"
    "[0, 30, - 30 :: real] ! 2 = - [0, 30, - 30] ! 1"
    by simp_all
  note uniform_symmetry [OF out this]
  ultimately have "fl_eq (out ! 1) (out ! 2)"
    by blast
  with out zero show ?thesis
    by blast
qed

section \<open>The steering angle in the response\<close>

text \<open>
  The steering angle is used through \<open>np.sin(np.radians(theta_user))\<close> only: two steering
  angles for which that value is the same give the same response.  Whether the floats
  computed for two angles are the same, as for \<open>\<theta>\<close> and \<open>180 - \<theta>\<close>, is a matter of rounding
  and outside this model.
\<close>

lemma steering_angle_through_sine:
  assumes "sin (radians a) = sin (radians b)"
  shows "mimo_array_response Nt Nr a theta window_type
           = mimo_array_response Nt Nr b theta window_type"
proof -
  have "steering win N a = steering win N b" for win N
    using assms by (simp add: steering_def)
  then show ?thesis
    by (simp add: mimo_array_response_def Let_def split: sum.splits prod.splits)
qed

section \<open>Folding a bearing\<close>

lemma np_arctan2_range: "- pi < np_arctan2 y x \<and> np_arctan2 y x \<le> pi"
proof -
  have b: "- (pi / 2) < arctan (y / x)" "arctan (y / x) < pi / 2"
    by (rule arctan_lbound, rule arctan_ubound)
  have neg: "arctan (y / x) \<le> 0" if "x < 0" "0 \<le> y"
  proof -
    have "y / x \<le> 0"
      using that by (simp add: divide_nonneg_neg)
    then have "arctan (y / x) \<le> arctan 0"
      by (simp only: arctan_le_iff)
    then show ?thesis by simp
  qed
  have pos: "0 < arctan (y / x)" if "x < 0" "y < 0"
  proof -
    have "0 < y / x"
      using that by (simp add: divide_neg_neg)
    then have "arctan 0 < arctan (y / x)"
      by (simp only: arctan_less_iff)
    then show ?thesis by simp
  qed
  show ?thesis
    using b neg pos pi_gt_zero by (auto simp add: np_arctan2_def)
qed

lemma degrees_range: "- pi < a \<Longrightarrow> a \<le> pi \<Longrightarrow> - 180 < degrees a \<and> degrees a \<le> 180"
proof -
  assume a: "- pi < a" "a \<le> pi"
  have "- 180 * pi < a * 180" "a * 180 \<le> 180 * pi"
    using a by simp_all
  then show ?thesis
    using pi_gt_zero by (simp add: degrees_def pos_less_divide_eq pos_divide_le_eq)
qed

lemma final_theta_range: "- 90 \<le> final_theta location \<and> final_theta location \<le> 90"
proof (cases location)
  case None
  then show ?thesis by (simp add: final_theta_def)
next
  case (Some p)
  obtain user_lat user_lon where p: "p = (user_lat, user_lon)"
    by (cases p)
  let ?a = "np_arctan2 (user_lon - 77.1025) (user_lat - 28.7041)"
  have "- 180 < degrees ?a \<and> degrees ?a \<le> 180"
    using np_arctan2_range [of "user_lon - 77.1025" "user_lat - 28.7041"]
    by (intro degrees_range) simp_all
  then show ?thesis
    by (simp add: final_theta_def Some p Let_def fold_angle_def)
qed

text \<open>
  C8. For every bearing \<open>\<theta>\<close> with \<open>-180 < \<theta> \<le> 180\<close> degrees, the folding step maps
  \<open>\<theta> > 90\<close> to \<open>180 - \<theta>\<close> and \<open>\<theta> < -90\<close> to \<open>-180 - \<theta>\<close>, leaves every other value as it
  is, and the steering angle it returns lies in \<open>[-90, 90]\<close>.
\<close>

theorem fold_angle_range:
  assumes "- 180 < \<theta>" and "\<theta> \<le> 180"
  shows "(90 < \<theta> \<longrightarrow> fold_angle \<theta> = 180 - \<theta>)
       \<and> (\<theta> < - 90 \<longrightarrow> fold_angle \<theta> = - 180 - \<theta>)
       \<and> (- 90 \<le> \<theta> \<and> \<theta> \<le> 90 \<longrightarrow> fold_angle \<theta> = \<theta>)
       \<and> - 90 \<le> fold_angle \<theta> \<and> fold_angle \<theta> \<le> 90"
  using assms by (simp add: fold_angle_def)

theorem fold_angle_range_witness:
  "fold_angle 135 = 45 \<and> fold_angle (- 100) = - 80 \<and> fold_angle 30 = 30
     \<and> - 90 \<le> fold_angle 135 \<and> fold_angle 135 \<le> 90"
  using fold_angle_range [of 135] fold_angle_range [of "- 100"] fold_angle_range [of 30]
  by simp

end
